theory Spec2Isabelle
  imports Main "HOL-Library.AList"
begin

section \<open>Input streams and \<open>std::getline\<close>\<close>

text \<open>
  The program reads text in two places with the same library call: \<open>std::getline\<close> on
  a \<open>std::stringstream\<close> holding one line (delimiter \<open>,\<close>) and on the
  \<open>std::ifstream\<close> of the input file (delimiter newline). A stream is modelled by the
  characters not yet consumed and its two state flags. \<open>badbit\<close> is never set by reading
  from memory or from an opened file in this model, and the \<open>max_size\<close> limit of
  \<open>std::string\<close> is not modelled.
\<close>

record istream =
  buf :: string
  eofbit :: bool
  failbit :: bool

definition open_stream :: "string \<Rightarrow> istream" where
  "open_stream content = \<lparr>buf = content, eofbit = False, failbit = False\<rparr>"

text \<open>
  The extraction loop inside \<open>getline\<close>: characters are moved to the result until the
  input ends (third component \<open>True\<close>: end of file was met) or the delimiter is
  found, which is consumed and not stored.
\<close>

fun extract_until :: "char \<Rightarrow> string \<Rightarrow> string \<times> string \<times> bool" where
  "extract_until delim [] = ([], [], True)"
| "extract_until delim (c # cs) =
     (if c = delim then ([], cs, False)
      else (let r = extract_until delim cs in (c # fst r, fst (snd r), snd (snd r))))"

text \<open>
  \<open>std::getline(s, str, delim)\<close>. The sentry fails on a stream that is not good; then
  \<open>failbit\<close> is set and \<open>str\<close> keeps its value. Otherwise \<open>str\<close> is erased and
  filled; \<open>eofbit\<close> is set when the input ended during extraction, and \<open>failbit\<close>
  when no character at all was extracted (the consumed delimiter counts as extracted, so
  this happens exactly on an exhausted buffer).
\<close>

definition getline :: "istream \<Rightarrow> string \<Rightarrow> char \<Rightarrow> istream \<times> string" where
  "getline s str delim =
     (if eofbit s \<or> failbit s then (s\<lparr>failbit := True\<rparr>, str)
      else (let r = extract_until delim (buf s)
            in (\<lparr>buf = fst (snd r), eofbit = snd (snd r), failbit = (buf s = [])\<rparr>, fst r)))"

text \<open>The measure that makes every \<open>while (std::getline(...))\<close> loop terminate.\<close>

definition remaining :: "istream \<Rightarrow> nat" where
  "remaining s = (if failbit s then 0 else if eofbit s then 1 else length (buf s) + 2)"

section \<open>Row Splitter\<close>

text \<open>
  \<open>split_csv_row\<close>, lines 8 to 18: the loop \<open>while (std::getline(ss, cell, ','))
  result.push_back(cell)\<close> with its three local variables as arguments.
\<close>

function split_loop :: "istream \<Rightarrow> string \<Rightarrow> string list \<Rightarrow> string list" where
  "split_loop ss cell result =
     (let r = getline ss cell CHR '','' in
      if failbit (fst r) then result
      else split_loop (fst r) (snd r) (result @ [snd r]))"
  by pat_completeness auto

definition split_csv_row :: "string \<Rightarrow> string list" where
  "split_csv_row line = split_loop (open_stream line) [] []"

text \<open>
  The splitting the specification describes: a line with \<open>n\<close> delimiters has
  \<open>n + 1\<close> segments, empty ones included, also before the first and after the last
  delimiter.
\<close>

fun spec_split :: "char \<Rightarrow> string \<Rightarrow> string list" where
  "spec_split delim [] = [[]]"
| "spec_split delim (c # cs) =
     (if c = delim then [] # spec_split delim cs
      else (let r = spec_split delim cs in (c # hd r) # tl r))"

text \<open>What \<open>split_csv_row\<close> does with the last segment: it is dropped when empty.\<close>

definition drop_last_empty :: "string list \<Rightarrow> string list" where
  "drop_last_empty segs = (if last segs = [] then butlast segs else segs)"

section \<open>Properties of the stream model\<close>

lemma extract_until_length:
  "length (fst (snd (extract_until delim cs))) \<le> length cs"
  by (induction cs) (auto simp: Let_def)

lemma extract_until_shorter:
  "cs \<noteq> [] \<Longrightarrow> length (fst (snd (extract_until delim cs))) < length cs"
  using extract_until_length [of delim "tl cs"]
  by (cases cs) (auto simp: Let_def less_Suc_eq_le)

lemma getline_remaining:
  "\<not> failbit (fst (getline s str delim)) \<Longrightarrow> remaining (fst (getline s str delim)) < remaining s"
  using extract_until_shorter [of "buf s" delim]
  by (auto simp: getline_def remaining_def Let_def split: if_splits)

termination split_loop
  by (relation "measure (\<lambda>(ss, cell, result). remaining ss)")
     (auto simp: getline_remaining)

declare split_loop.simps [simp del]

section \<open>Key Builder\<close>

text \<open>
  \<open>make_key\<close>, lines 20 to 23. \<open>row[i]\<close> on a \<open>std::vector\<close> does not check its
  index; reading out of range is undefined behaviour, which is the value \<open>None\<close> here.
\<close>

definition make_key :: "string list \<Rightarrow> nat \<Rightarrow> nat \<Rightarrow> nat \<Rightarrow> string option" where
  "make_key row package_idx arch_idx release_idx =
     (if package_idx < length row \<and> arch_idx < length row \<and> release_idx < length row
      then Some (row ! package_idx @ ''|'' @ row ! arch_idx @ ''|'' @ row ! release_idx)
      else None)"

section \<open>Header Resolver\<close>

text \<open>
  \<open>size_t\<close> values are natural numbers below \<open>2 ^ 64\<close>; the initial value \<open>-1\<close> of
  the three positions converts to the largest of them, which is \<open>std::string::npos\<close>.
\<close>

definition npos :: nat where
  "npos = 2 ^ 64 - 1"

text \<open>
  The loop of lines 42 to 46, with the counter and the three positions as arguments.
\<close>

function header_loop :: "string list \<Rightarrow> nat \<Rightarrow> nat \<times> nat \<times> nat \<Rightarrow> nat \<times> nat \<times> nat" where
  "header_loop headers i (package_idx, arch_idx, release_idx) =
     (if i < length headers then
        header_loop headers (Suc i)
          (if headers ! i = ''package'' then i else package_idx,
           if headers ! i = ''architecture'' then i else arch_idx,
           if headers ! i = ''release'' then i else release_idx)
      else (package_idx, arch_idx, release_idx))"
  by pat_completeness auto

termination header_loop
  by (relation "measure (\<lambda>(headers, i, idx). length headers - i)") auto

declare header_loop.simps [simp del]

section \<open>Output\<close>

text \<open>
  \<open>operator<<\<close> on a \<open>size_t\<close>: the decimal digits, most significant first.
\<close>

definition digit_char :: "nat \<Rightarrow> char" where
  "digit_char d = char_of (48 + d)"

function show_dec :: "nat \<Rightarrow> string" where
  "show_dec n = (if n < 10 then [digit_char n] else show_dec (n div 10) @ [digit_char (n mod 10)])"
  by pat_completeness auto

termination show_dec
  by (relation "measure (\<lambda>n. n)") auto

declare show_dec.simps [simp del]

text \<open>
  The three symbols that start the lines written to standard output, as the bytes of
  their UTF-8 encoding in the source file.
\<close>

definition check_mark :: string where
  "check_mark = [CHR 0xE2, CHR 0x9C, CHR 0x85]"

definition magnifier :: string where
  "magnifier = [CHR 0xF0, CHR 0x9F, CHR 0x94, CHR 0x8D]"

definition cross_mark :: string where
  "cross_mark = [CHR 0xE2, CHR 0x9D, CHR 0x8C]"

section \<open>Index Builder\<close>

text \<open>
  The \<open>std::unordered_map\<close> is an association list with distinct keys:
  \<open>hashmap[key] = row\<close> is \<open>AList.update\<close>, \<open>find\<close> is \<open>map_of\<close> and \<open>size()\<close> is
  the length. The program never iterates over the map, so the order of the list is not
  observable.
\<close>

type_synonym index = "(string \<times> string list) list"

text \<open>
  The loop of lines 57 to 67. Its arguments are the variables it reads (the header and
  the three positions) and the ones it changes: the file stream, \<open>line\<close>, \<open>line_num\<close>,
  the map and the text written to standard error so far. The result is \<open>None\<close> when
  \<open>make_key\<close> reads out of range.
\<close>

function index_loop ::
  "string list \<Rightarrow> nat \<Rightarrow> nat \<Rightarrow> nat \<Rightarrow> istream \<Rightarrow> string \<Rightarrow> nat \<Rightarrow> index \<Rightarrow> string
     \<Rightarrow> (index \<times> string) option" where
  "index_loop headers package_idx arch_idx release_idx file line line_num hashmap cerr =
     (let r = getline file line CHR 0x0A in
      if failbit (fst r) then Some (hashmap, cerr)
      else
        (let row = split_csv_row (snd r) in
         if length row \<noteq> length headers then
           index_loop headers package_idx arch_idx release_idx (fst r) (snd r) (Suc line_num)
             hashmap
             (cerr @ ''Warning: Skipping malformed line '' @ show_dec (Suc line_num) @ [CHR 0x0A])
         else
           (case make_key row package_idx arch_idx release_idx of
              None \<Rightarrow> None
            | Some key \<Rightarrow>
                index_loop headers package_idx arch_idx release_idx (fst r) (snd r) (Suc line_num)
                  (AList.update key row hashmap) cerr)))"
  by pat_completeness auto

termination index_loop
  by (relation "measure (\<lambda>(headers, package_idx, arch_idx, release_idx, file, rest). remaining file)")
     (auto simp: getline_remaining)

declare index_loop.simps [simp del]

section \<open>Query Service\<close>

text \<open>
  Lines 77 to 84, with the map, the key and the text written to standard output so far as
  arguments. \<open>find\<close> does not change the map, which is returned as it was given.
\<close>

definition query_service :: "index \<Rightarrow> string \<Rightarrow> string \<Rightarrow> index \<times> string" where
  "query_service hashmap query_key cout =
     (case map_of hashmap query_key of
        Some row \<Rightarrow>
          (hashmap,
           foldl (\<lambda>out col. out @ col @ '' | '') (cout @ magnifier @ '' Found: '') row @ [CHR 0x0A])
      | None \<Rightarrow>
          (hashmap, cout @ cross_mark @ '' Not found: '' @ query_key @ [CHR 0x0A]))"

section \<open>The program\<close>

text \<open>
  What a run leaves behind: the exit status, the text on standard output and on standard
  error, and the index held when the program returns (empty when it was never built).
\<close>

record outcome =
  exit_code :: int
  cout :: string
  cerr :: string
  hashmap :: index

text \<open>
  \<open>main\<close>, lines 25 to 87. \<open>argv\<close> holds the program name and the arguments, so
  \<open>argc\<close> is its length; the file system maps a path to the content of the file, or to
  \<open>None\<close> when the file cannot be opened.
\<close>

definition main :: "string list \<Rightarrow> (string \<rightharpoonup> string) \<Rightarrow> outcome option" where
  "main argv fs =
     (if length argv \<noteq> 2 then
        Some \<lparr>exit_code = 1, cout = [],
              cerr = ''Usage: ./csv_hashmap <csv_file>'' @ [CHR 0x0A], hashmap = []\<rparr>
      else
        (case fs (argv ! 1) of
           None \<Rightarrow>
             Some \<lparr>exit_code = 1, cout = [],
                   cerr = ''Error opening file: '' @ argv ! 1 @ [CHR 0x0A], hashmap = []\<rparr>
         | Some content \<Rightarrow>
             (let r = getline (open_stream content) [] CHR 0x0A;
                  headers = split_csv_row (snd r);
                  idx = header_loop headers 0 (npos, npos, npos);
                  package_idx = fst idx;
                  arch_idx = fst (snd idx);
                  release_idx = snd (snd idx)
              in
                if package_idx = npos \<or> arch_idx = npos \<or> release_idx = npos then
                  Some \<lparr>exit_code = 1, cout = [],
                        cerr = ''Missing required columns (package, architecture, release)''
                               @ [CHR 0x0A],
                        hashmap = []\<rparr>
                else
                  (case index_loop headers package_idx arch_idx release_idx (fst r) (snd r) 1 [] [] of
                     None \<Rightarrow> None
                   | Some built \<Rightarrow>
                       (let loaded = check_mark @ '' Loaded '' @ show_dec (length (fst built))
                                     @ '' unique entries.'' @ [CHR 0x0A];
                            query_key = ''openssl'' @ ''|'' @ ''amd64'' @ ''|'' @ ''22.04'';
                            q = query_service (fst built) query_key loaded
                        in Some \<lparr>exit_code = 0, cout = snd q, cerr = snd built,
                                 hashmap = fst q\<rparr>)))))"

section \<open>Notions used to state the properties\<close>

text \<open>
  The lines of a file: the text between newline characters, where the rest after the last
  newline is a line only if it is not empty. The first line is the header row and line
  number \<open>1\<close>; the data rows are the lines after it, so the data row at position \<open>k\<close>
  of \<open>data_rows\<close> is line \<open>k + 2\<close> of the file.
\<close>

definition file_lines :: "string \<Rightarrow> string list" where
  "file_lines content = drop_last_empty (spec_split CHR 0x0A content)"

definition header_line :: "string \<Rightarrow> string" where
  "header_line content = (case file_lines content of [] \<Rightarrow> [] | l # ls \<Rightarrow> l)"

definition header_fields :: "string \<Rightarrow> string list" where
  "header_fields content = split_csv_row (header_line content)"

definition data_rows :: "string \<Rightarrow> string list list" where
  "data_rows content = map split_csv_row (tl (file_lines content))"

text \<open>The composite key of a row for given positions, and the insertion of a row.\<close>

definition composite_key :: "nat \<Rightarrow> nat \<Rightarrow> nat \<Rightarrow> string list \<Rightarrow> string" where
  "composite_key p a r row = row ! p @ ''|'' @ row ! a @ ''|'' @ row ! r"

definition insert_row :: "nat \<Rightarrow> nat \<Rightarrow> nat \<Rightarrow> index \<Rightarrow> string list \<Rightarrow> index" where
  "insert_row p a r m row = AList.update (composite_key p a r row) row m"

text \<open>The rows with as many fields as the header, in file order.\<close>

definition well_formed_rows :: "string list \<Rightarrow> string list list \<Rightarrow> string list list" where
  "well_formed_rows hs rows = filter (\<lambda>row. length row = length hs) rows"

text \<open>
  The line numbers of the rows whose field count differs from the header's, in file
  order, and the warning for a line number.
\<close>

definition malformed_line_numbers :: "string list \<Rightarrow> string list list \<Rightarrow> nat list" where
  "malformed_line_numbers hs rows =
     map (\<lambda>k. k + 2) (filter (\<lambda>k. length (rows ! k) \<noteq> length hs) [0..<length rows])"

definition warning :: "nat \<Rightarrow> string" where
  "warning n = ''Warning: Skipping malformed line '' @ show_dec n @ [CHR 0x0A]"

definition missing_columns_message :: string where
  "missing_columns_message =
     ''Missing required columns (package, architecture, release)'' @ [CHR 0x0A]"

definition loaded_line :: "nat \<Rightarrow> string" where
  "loaded_line n = check_mark @ '' Loaded '' @ show_dec n @ '' unique entries.'' @ [CHR 0x0A]"

text \<open>
  A header row that names the three required columns. Its length is what
  \<open>headers.size()\<close> returns, a \<open>size_t\<close>, so every position in it is below
  \<open>npos\<close>.
\<close>

definition valid_header :: "string list \<Rightarrow> bool" where
  "valid_header hs \<longleftrightarrow>
     ''package'' \<in> set hs \<and> ''architecture'' \<in> set hs \<and> ''release'' \<in> set hs
     \<and> length hs \<le> npos"

text \<open>The required names that a header row lacks, under exact comparison of the strings.\<close>

definition missing_names :: "string list \<Rightarrow> string list" where
  "missing_names hs = filter (\<lambda>name. name \<notin> set hs) [''package'', ''architecture'', ''release'']"

text \<open>
  Fields joined with a separator between neighbours and nowhere else, and the found line
  the specification describes.
\<close>

fun join_with :: "string \<Rightarrow> string list \<Rightarrow> string" where
  "join_with sep [] = []"
| "join_with sep [x] = x"
| "join_with sep (x # y # ys) = x @ sep @ join_with sep (y # ys)"

definition spec_found_line :: "string list \<Rightarrow> string" where
  "spec_found_line row = magnifier @ '' Found: '' @ join_with '' | '' row @ [CHR 0x0A]"

text \<open>A position is the last one at which a name occurs in the header row.\<close>

definition last_occurrence :: "string list \<Rightarrow> string \<Rightarrow> nat \<Rightarrow> bool" where
  "last_occurrence hs name p \<longleftrightarrow>
     p < length hs \<and> hs ! p = name \<and> (\<forall>j \<in> {Suc p..<length hs}. hs ! j \<noteq> name)"

text \<open>
  A permutation of the column positions \<open>0, ..., n - 1\<close> is the list of the old
  positions in their new order; applied to a field sequence, the field at new position
  \<open>i\<close> is the one that was at position \<open>perm ! i\<close>.
\<close>

definition is_permutation :: "nat list \<Rightarrow> nat \<Rightarrow> bool" where
  "is_permutation perm n \<longleftrightarrow> distinct perm \<and> set perm = {0..<n}"

definition permute :: "nat list \<Rightarrow> 'a list \<Rightarrow> 'a list" where
  "permute perm xs = map (\<lambda>i. xs ! i) perm"

text \<open>One of the three positions of the header loop, followed on its own.\<close>

function find_last :: "string \<Rightarrow> string list \<Rightarrow> nat \<Rightarrow> nat \<Rightarrow> nat" where
  "find_last name headers i pos =
     (if i < length headers then
        find_last name headers (Suc i) (if headers ! i = name then i else pos)
      else pos)"
  by pat_completeness auto

termination find_last
  by (relation "measure (\<lambda>(name, headers, i, pos). length headers - i)") auto

declare find_last.simps [simp del]

text \<open>The index loop over the lines it is going to read, given as a list.\<close>

fun build_rows ::
  "string list \<Rightarrow> nat \<Rightarrow> nat \<Rightarrow> nat \<Rightarrow> string list \<Rightarrow> nat \<Rightarrow> index \<Rightarrow> string
     \<Rightarrow> (index \<times> string) option" where
  "build_rows hs p a r [] n m err = Some (m, err)"
| "build_rows hs p a r (l # ls) n m err =
     (if length (split_csv_row l) \<noteq> length hs then
        build_rows hs p a r ls (Suc n) m (err @ warning (Suc n))
      else
        (case make_key (split_csv_row l) p a r of
           None \<Rightarrow> None
         | Some key \<Rightarrow> build_rows hs p a r ls (Suc n) (AList.update key (split_csv_row l) m) err))"

text \<open>Reading a decimal numeral back.\<close>

definition read_dec :: "string \<Rightarrow> nat" where
  "read_dec ds = foldl (\<lambda>n c. 10 * n + (of_char c - 48)) 0 ds"

text \<open>The line numbers warned about when the loop starts after line \<open>n\<close>.\<close>

definition warn_from :: "nat \<Rightarrow> string list \<Rightarrow> string list list \<Rightarrow> nat list" where
  "warn_from n hs rows =
     map (\<lambda>k. k + Suc n) (filter (\<lambda>k. length (rows ! k) \<noteq> length hs) [0..<length rows])"

text \<open>A sample input: a header, two rows with the same key around a malformed row, and a
  fourth row with another key.\<close>

definition sample_csv :: string where
  "sample_csv =
     ''package,architecture,release,version'' @ [CHR 0x0A] @
     ''foo,amd64,20.04,1.0'' @ [CHR 0x0A] @
     ''broken,row'' @ [CHR 0x0A] @
     ''foo,amd64,20.04,2.0'' @ [CHR 0x0A] @
     ''openssl,amd64,22.04,3.0'' @ [CHR 0x0A]"

definition sample_argv :: "string list" where
  "sample_argv = [''./csv_hashmap'', ''packages.csv'']"

definition sample_fs :: "string \<rightharpoonup> string" where
  "sample_fs = [''packages.csv'' \<mapsto> sample_csv]"

text \<open>A file whose header lacks a required column, and a file whose header names one twice.\<close>

definition headless_csv :: string where
  "headless_csv = ''package,release'' @ [CHR 0x0A] @ ''foo,20.04'' @ [CHR 0x0A] @ ''x,y,z''"

definition duplicate_csv :: string where
  "duplicate_csv =
     ''package,package,architecture,release'' @ [CHR 0x0A] @ ''old,new,amd64,22.04'' @ [CHR 0x0A]"

text \<open>
  The sample input with its columns in another order, and the file with the repeated name
  with its first two columns exchanged.
\<close>

definition permuted_csv :: string where
  "permuted_csv =
     ''version,architecture,package,release'' @ [CHR 0x0A] @
     ''1.0,amd64,foo,20.04'' @ [CHR 0x0A] @
     ''broken,row'' @ [CHR 0x0A] @
     ''2.0,amd64,foo,20.04'' @ [CHR 0x0A] @
     ''3.0,amd64,openssl,22.04'' @ [CHR 0x0A]"

definition swapped_csv :: string where
  "swapped_csv =
     ''package,package,architecture,release'' @ [CHR 0x0A] @ ''new,old,amd64,22.04'' @ [CHR 0x0A]"

text \<open>
  A file in which two rows with the same triple are followed by a row with another triple
  that builds the same composite key, a field holding the join character.
\<close>

definition collision_csv :: string where
  "collision_csv =
     ''package,architecture,release,version'' @ [CHR 0x0A] @
     ''a|b,c,d,1'' @ [CHR 0x0A] @
     ''a|b,c,d,2'' @ [CHR 0x0A] @
     ''a,b|c,d,3'' @ [CHR 0x0A]"

section \<open>Row splitter against the specification's splitting\<close>

lemma spec_split_not_Nil: "spec_split delim s \<noteq> []"
  by (induction s) (auto simp: Let_def)

lemma extract_until_eof:
  "snd (snd (extract_until delim s)) \<Longrightarrow>
     extract_until delim s = (s, [], True) \<and> spec_split delim s = [s]"
  by (induction s) (auto simp: Let_def split: if_splits)

lemma extract_until_delim:
  "\<not> snd (snd (extract_until delim s)) \<Longrightarrow>
     spec_split delim s =
       fst (extract_until delim s) # spec_split delim (fst (snd (extract_until delim s)))"
  by (induction s) (auto simp: Let_def split: if_splits)

lemma drop_last_empty_Cons:
  "xs \<noteq> [] \<Longrightarrow> drop_last_empty (x # xs) = x # drop_last_empty xs"
  by (simp add: drop_last_empty_def)

lemma split_loop_at_eof:
  "eofbit ss \<or> failbit ss \<Longrightarrow> split_loop ss cell result = result"
  by (subst split_loop.simps) (simp add: getline_def)

lemma split_loop_good:
  "split_loop \<lparr>buf = s, eofbit = False, failbit = False\<rparr> cell result =
     result @ drop_last_empty (spec_split CHR '','' s)"
proof (induction s arbitrary: cell result rule: length_induct)
  case (1 s)
  let ?r = "extract_until CHR '','' s"
  show ?case
  proof (cases "s = []")
    case True
    then show ?thesis
      by (subst split_loop.simps) (simp add: getline_def drop_last_empty_def)
  next
    case False
    show ?thesis
    proof (cases "snd (snd ?r)")
      case True
      from extract_until_eof [OF True]
      have r: "?r = (s, [], True)" and sp: "spec_split CHR '','' s = [s]"
        by simp_all
      show ?thesis
        using False
        by (subst split_loop.simps)
           (simp add: getline_def Let_def r sp split_loop_at_eof drop_last_empty_def)
    next
      case nd: False
      have sp: "spec_split CHR '','' s = fst ?r # spec_split CHR '','' (fst (snd ?r))"
        by (rule extract_until_delim [OF nd])
      have shorter: "length (fst (snd ?r)) < length s"
        by (rule extract_until_shorter [OF False])
      have IH: "split_loop \<lparr>buf = fst (snd ?r), eofbit = False, failbit = False\<rparr>
                  (fst ?r) (result @ [fst ?r]) =
                (result @ [fst ?r]) @ drop_last_empty (spec_split CHR '','' (fst (snd ?r)))"
        using "1.IH" shorter by blast
      show ?thesis
        using False nd
        by (subst split_loop.simps)
           (simp add: getline_def Let_def IH sp drop_last_empty_Cons spec_split_not_Nil)
    qed
  qed
qed

lemma split_csv_row_eq: "split_csv_row line = drop_last_empty (spec_split CHR '','' line)"
  by (simp add: split_csv_row_def open_stream_def split_loop_good)

lemma length_spec_split: "length (spec_split delim s) = Suc (count_list s delim)"
  by (induction s) (auto simp: Let_def spec_split_not_Nil)

lemma tl_spec_split: "tl (spec_split delim s) = [] \<longleftrightarrow> delim \<notin> set s"
  by (induction s) (auto simp: Let_def spec_split_not_Nil)

lemma last_spec_split_empty:
  "last (spec_split delim s) = [] \<longleftrightarrow> s = [] \<or> last s = delim"
proof (induction s)
  case Nil
  show ?case by simp
next
  case (Cons a s)
  show ?case
  proof (cases "a = delim")
    case True
    with Cons show ?thesis by (simp add: spec_split_not_Nil)
  next
    case False
    show ?thesis
    proof (cases "delim \<in> set s")
      case True
      then have "tl (spec_split delim s) \<noteq> []" "s \<noteq> []"
        by (auto simp: tl_spec_split)
      with Cons False show ?thesis
        by (simp add: Let_def last_tl)
    next
      case nin: False
      then have "tl (spec_split delim s) = []" by (simp add: tl_spec_split)
      moreover have "s \<noteq> [] \<Longrightarrow> last s \<noteq> delim" using nin last_in_set by metis
      ultimately show ?thesis using False by (simp add: Let_def)
    qed
  qed
qed

section \<open>The lines the index loop reads\<close>

lemma getline_open:
  "getline (open_stream content) str delim =
     (\<lparr>buf = fst (snd (extract_until delim content)),
        eofbit = snd (snd (extract_until delim content)),
        failbit = (content = [])\<rparr>, fst (extract_until delim content))"
  by (simp add: getline_def open_stream_def Let_def)

lemma file_lines_eof:
  "snd (snd (extract_until CHR 0x0A content)) \<Longrightarrow>
     file_lines content = (if content = [] then [] else [content])"
  using extract_until_eof [of "CHR 0x0A" content]
  by (simp add: file_lines_def drop_last_empty_def)

lemma file_lines_delim:
  "\<not> snd (snd (extract_until CHR 0x0A content)) \<Longrightarrow>
     file_lines content =
       fst (extract_until CHR 0x0A content)
         # file_lines (fst (snd (extract_until CHR 0x0A content)))"
  using extract_until_delim [of "CHR 0x0A" content]
  by (simp add: file_lines_def drop_last_empty_Cons spec_split_not_Nil)

lemma header_line_eq: "header_line content = fst (extract_until CHR 0x0A content)"
proof (cases "snd (snd (extract_until CHR 0x0A content))")
  case True
  then show ?thesis
    using extract_until_eof [OF True]
    by (simp add: header_line_def file_lines_eof)
next
  case False
  then show ?thesis by (simp add: header_line_def file_lines_delim)
qed

lemma index_loop_at_eof:
  "eofbit file \<or> failbit file \<Longrightarrow>
     index_loop hs p a r file line n m err = Some (m, err)"
  by (subst index_loop.simps) (simp add: getline_def)

lemma index_loop_good:
  "index_loop hs p a r \<lparr>buf = s, eofbit = False, failbit = False\<rparr> line n m err =
     build_rows hs p a r (file_lines s) n m err"
proof (induction s arbitrary: line n m err rule: length_induct)
  case (1 s)
  let ?r = "extract_until CHR 0x0A s"
  show ?case
  proof (cases "s = []")
    case True
    then show ?thesis
      by (subst index_loop.simps) (simp add: getline_def file_lines_def drop_last_empty_def)
  next
    case False
    show ?thesis
    proof (cases "snd (snd ?r)")
      case True
      from extract_until_eof [OF True] have r: "?r = (s, [], True)" by simp
      show ?thesis
        using False
        by (subst index_loop.simps)
           (simp add: getline_def Let_def r file_lines_eof [OF True] index_loop_at_eof warning_def
              split: option.splits)
    next
      case nd: False
      have shorter: "length (fst (snd ?r)) < length s"
        by (rule extract_until_shorter [OF False])
      have IH: "\<And>line n m err.
          index_loop hs p a r \<lparr>buf = fst (snd ?r), eofbit = False, failbit = False\<rparr> line n m err =
          build_rows hs p a r (file_lines (fst (snd ?r))) n m err"
        using "1.IH" shorter by blast
      show ?thesis
        using False nd
        by (subst index_loop.simps)
           (simp add: getline_def Let_def IH file_lines_delim [OF nd] warning_def
              split: option.splits)
    qed
  qed
qed

lemma index_loop_after_header:
  "index_loop hs p a r (fst (getline (open_stream content) [] CHR 0x0A)) line n m err =
     build_rows hs p a r (tl (file_lines content)) n m err"
proof (cases "snd (snd (extract_until CHR 0x0A content))")
  case True
  then show ?thesis
    by (simp add: getline_open index_loop_at_eof file_lines_eof)
next
  case False
  then have "content \<noteq> []" by (cases content) auto
  with False show ?thesis
    by (simp add: getline_open index_loop_good file_lines_delim)
qed

section \<open>Decimal output\<close>

lemma of_char_digit_char: "d < 10 \<Longrightarrow> of_char (digit_char d) = 48 + d"
  by (simp add: digit_char_def)

lemma read_dec_snoc: "read_dec (ds @ [c]) = 10 * read_dec ds + (of_char c - 48)"
  by (simp add: read_dec_def)

lemma read_dec_show_dec: "read_dec (show_dec n) = n"
proof (induction n rule: show_dec.induct)
  case (1 n)
  show ?case
  proof (cases "n < 10")
    case True
    then show ?thesis
      by (subst show_dec.simps) (simp add: read_dec_def of_char_digit_char)
  next
    case False
    then have "read_dec (show_dec (n div 10)) = n div 10" using 1 by simp
    then show ?thesis
      using False
      by (subst show_dec.simps) (simp add: read_dec_snoc of_char_digit_char)
  qed
qed

lemma show_dec_inj: "show_dec m = show_dec n \<Longrightarrow> m = n"
  by (metis read_dec_show_dec)

lemma warning_inj: "warning m = warning n \<Longrightarrow> m = n"
  by (simp add: warning_def show_dec_inj)

section \<open>Header loop\<close>

lemma header_loop_eq:
  "header_loop hs i (p, a, r) =
     (find_last ''package'' hs i p, find_last ''architecture'' hs i a, find_last ''release'' hs i r)"
proof (induction hs i "(p, a, r)" arbitrary: p a r rule: header_loop.induct)
  case (1 headers i package_idx arch_idx release_idx)
  show ?case
  proof (cases "i < length headers")
    case True
    then show ?thesis
      using 1 [OF True]
      by (subst header_loop.simps, subst (1 2 3) find_last.simps) simp
  next
    case False
    then show ?thesis
      by (subst header_loop.simps, subst (1 2 3) find_last.simps) simp
  qed
qed

lemma find_last_cases:
  "(find_last name hs i pos = pos \<and> (\<forall>j. i \<le> j \<and> j < length hs \<longrightarrow> hs ! j \<noteq> name))
   \<or> (i \<le> find_last name hs i pos \<and> last_occurrence hs name (find_last name hs i pos))"
proof (induction name hs i pos rule: find_last.induct)
  case (1 name headers i pos)
  show ?case
  proof (cases "i < length headers")
    case False
    then have "find_last name headers i pos = pos"
      by (subst find_last.simps) simp
    with False show ?thesis by auto
  next
    case True
    let ?pos' = "if headers ! i = name then i else pos"
    have eq: "find_last name headers i pos = find_last name headers (Suc i) ?pos'"
      using True by (subst find_last.simps) simp
    from 1 [OF True] consider
        (stay) "find_last name headers (Suc i) ?pos' = ?pos'"
               "\<forall>j. Suc i \<le> j \<and> j < length headers \<longrightarrow> headers ! j \<noteq> name"
      | (found) "Suc i \<le> find_last name headers (Suc i) ?pos'"
                "last_occurrence headers name (find_last name headers (Suc i) ?pos')"
      by blast
    then show ?thesis
    proof cases
      case stay
      show ?thesis
      proof (cases "headers ! i = name")
        case hit: True
        have "last_occurrence headers name i"
          using True hit stay(2) by (simp add: last_occurrence_def)
        then show ?thesis using stay(1) hit by (simp add: eq)
      next
        case miss: False
        have "\<forall>j. i \<le> j \<and> j < length headers \<longrightarrow> headers ! j \<noteq> name"
          using stay(2) miss by (metis Suc_leI le_neq_implies_less)
        then show ?thesis using stay(1) miss by (simp add: eq)
      qed
    next
      case found
      then show ?thesis by (simp add: eq)
    qed
  qed
qed

lemma last_occurrence_mem: "last_occurrence hs name p \<Longrightarrow> name \<in> set hs"
  by (auto simp: last_occurrence_def)

lemma find_last_absent: "name \<notin> set hs \<Longrightarrow> find_last name hs 0 pos = pos"
  using find_last_cases [of name hs 0 pos] last_occurrence_mem by blast

lemma find_last_present:
  "name \<in> set hs \<Longrightarrow> last_occurrence hs name (find_last name hs 0 pos)"
  using find_last_cases [of name hs 0 pos] by (auto simp: in_set_conv_nth)

section \<open>The index loop as a fold\<close>

lemma make_key_in_range:
  "p < length row \<Longrightarrow> a < length row \<Longrightarrow> r < length row \<Longrightarrow>
     make_key row p a r = Some (composite_key p a r row)"
  by (simp add: make_key_def composite_key_def)

lemma warn_from_Nil: "warn_from n hs [] = []"
  by (simp add: warn_from_def)

lemma warn_from_Cons:
  "warn_from n hs (row # rows) =
     (if length row \<noteq> length hs then [Suc n] else []) @ warn_from (Suc n) hs rows"
proof -
  have upt: "[0..<length (row # rows)] = 0 # map Suc [0..<length rows]"
    by (simp add: upt_conv_Cons map_Suc_upt del: upt_Suc)
  show ?thesis
    unfolding warn_from_def upt
    by (simp add: filter_map o_def)
qed

lemma build_rows_fold:
  assumes "p < length hs" "a < length hs" "r < length hs"
  shows "build_rows hs p a r ls n m err =
     Some (foldl (insert_row p a r) m (well_formed_rows hs (map split_csv_row ls)),
           err @ concat (map warning (warn_from n hs (map split_csv_row ls))))"
proof (induction ls arbitrary: n m err)
  case Nil
  show ?case by (simp add: well_formed_rows_def warn_from_Nil)
next
  case (Cons l ls)
  show ?case
  proof (cases "length (split_csv_row l) = length hs")
    case True
    then have "make_key (split_csv_row l) p a r = Some (composite_key p a r (split_csv_row l))"
      using assms by (simp add: make_key_in_range)
    then show ?thesis
      using True Cons [of "Suc n"]
      by (simp add: well_formed_rows_def warn_from_Cons insert_row_def)
  next
    case False
    then show ?thesis
      using Cons [of "Suc n"]
      by (simp add: well_formed_rows_def warn_from_Cons)
  qed
qed

lemma warn_from_1: "warn_from 1 hs rows = malformed_line_numbers hs rows"
  by (simp add: warn_from_def malformed_line_numbers_def)

section \<open>The run of main\<close>

lemma getline_header:
  "snd (getline (open_stream content) [] CHR 0x0A) = header_line content"
  by (simp add: getline_open header_line_eq)

lemma main_missing:
  assumes "length argv = 2" "fs (argv ! 1) = Some content"
    and "''package'' \<notin> set (header_fields content) \<or> ''architecture'' \<notin> set (header_fields content)
         \<or> ''release'' \<notin> set (header_fields content)"
  shows "main argv fs =
    Some \<lparr>exit_code = 1, cout = [], cerr = missing_columns_message, hashmap = []\<rparr>"
proof -
  let ?hs = "header_fields content"
  have "find_last ''package'' ?hs 0 npos = npos \<or> find_last ''architecture'' ?hs 0 npos = npos
        \<or> find_last ''release'' ?hs 0 npos = npos"
    using assms(3) find_last_absent by blast
  then show ?thesis
    using assms(1,2)
    by (simp add: main_def Let_def getline_header header_fields_def [symmetric] header_loop_eq
          missing_columns_message_def del: One_nat_def)
qed

lemma valid_header_positions:
  assumes "valid_header hs" "header_loop hs 0 (npos, npos, npos) = (p, a, r)"
  shows "last_occurrence hs ''package'' p" "last_occurrence hs ''architecture'' a"
    "last_occurrence hs ''release'' r" "p \<noteq> npos" "a \<noteq> npos" "r \<noteq> npos"
    "p < length hs" "a < length hs" "r < length hs"
proof -
  have eqs: "p = find_last ''package'' hs 0 npos" "a = find_last ''architecture'' hs 0 npos"
    "r = find_last ''release'' hs 0 npos"
    using assms(2) by (simp_all add: header_loop_eq)
  show lp: "last_occurrence hs ''package'' p" and la: "last_occurrence hs ''architecture'' a"
    and lr: "last_occurrence hs ''release'' r"
    using assms(1) by (simp_all add: eqs valid_header_def find_last_present)
  show "p < length hs" "a < length hs" "r < length hs"
    using lp la lr by (simp_all add: last_occurrence_def)
  then show "p \<noteq> npos" "a \<noteq> npos" "r \<noteq> npos"
    using assms(1) by (simp_all add: valid_header_def)
qed

lemma main_valid:
  assumes "length argv = 2" "fs (argv ! 1) = Some content"
    and "valid_header (header_fields content)"
    and "header_loop (header_fields content) 0 (npos, npos, npos) = (p, a, r)"
  shows "main argv fs =
    Some \<lparr>exit_code = 0,
          cout = snd (query_service
                   (foldl (insert_row p a r) []
                      (well_formed_rows (header_fields content) (data_rows content)))
                   ''openssl|amd64|22.04''
                   (loaded_line (length (foldl (insert_row p a r) []
                      (well_formed_rows (header_fields content) (data_rows content)))))),
          cerr = concat (map warning
                   (malformed_line_numbers (header_fields content) (data_rows content))),
          hashmap = foldl (insert_row p a r) []
                      (well_formed_rows (header_fields content) (data_rows content))\<rparr>"
proof -
  let ?hs = "header_fields content"
  note pos = valid_header_positions [OF assms(3,4)]
  have fst_query: "\<And>m k c. fst (query_service m k c) = m"
    by (simp add: query_service_def split: option.splits)
  have loop: "index_loop ?hs p a r (fst (getline (open_stream content) [] CHR 0x0A))
                (header_line content) 1 [] [] =
              Some (foldl (insert_row p a r) [] (well_formed_rows ?hs (data_rows content)),
                    concat (map warning (malformed_line_numbers ?hs (data_rows content))))"
    using build_rows_fold [OF pos(7,8,9), of "tl (file_lines content)" 1 "[]" "[]"]
    by (simp add: index_loop_after_header data_rows_def warn_from_1 del: One_nat_def)
  show ?thesis
    using assms(1,2,4) pos(4,5,6) loop
    by (simp add: main_def Let_def getline_header header_fields_def [symmetric]
          fst_query loaded_line_def del: One_nat_def)
qed

section \<open>The index as a fold over the well-formed rows\<close>

lemma map_of_insert_row:
  "map_of (insert_row p a r m row) = (map_of m)(composite_key p a r row \<mapsto> row)"
  by (simp add: insert_row_def update_conv')

lemma map_of_fold_other:
  "\<forall>y \<in> set ys. composite_key p a r y \<noteq> k \<Longrightarrow>
     map_of (foldl (insert_row p a r) m ys) k = map_of m k"
  by (induction ys arbitrary: m) (auto simp: map_of_insert_row)

lemma map_of_fold_last:
  assumes "\<forall>y \<in> set ys. composite_key p a r y \<noteq> composite_key p a r row"
  shows "map_of (foldl (insert_row p a r) m (xs @ row # ys)) (composite_key p a r row) = Some row"
  using map_of_fold_other [OF assms] by (simp add: map_of_insert_row)

lemma keys_fold:
  "fst ` set (foldl (insert_row p a r) m rows) = fst ` set m \<union> composite_key p a r ` set rows"
  by (induction rows arbitrary: m) (auto simp: insert_row_def dom_update)

lemma distinct_fold:
  "distinct (map fst m) \<Longrightarrow> distinct (map fst (foldl (insert_row p a r) m rows))"
  by (induction rows arbitrary: m) (simp_all add: insert_row_def distinct_update)

lemma length_fold:
  "length (foldl (insert_row p a r) [] rows) = card (composite_key p a r ` set rows)"
proof -
  let ?m = "foldl (insert_row p a r) [] rows"
  have "distinct (map fst ?m)" by (rule distinct_fold) simp
  then have "card (set (map fst ?m)) = length (map fst ?m)" by (rule distinct_card)
  moreover have "set (map fst ?m) = composite_key p a r ` set rows"
    using keys_fold [of p a r "[]" rows] by simp
  ultimately show ?thesis by simp
qed

lemma well_formed_rows_split:
  assumes "j < length rows" "length (rows ! j) = length hs"
  shows "well_formed_rows hs rows =
     well_formed_rows hs (take j rows) @ rows ! j # well_formed_rows hs (drop (Suc j) rows)"
proof -
  have "rows = take j rows @ rows ! j # drop (Suc j) rows"
    using assms(1) by (rule id_take_nth_drop)
  then have "well_formed_rows hs rows =
      well_formed_rows hs (take j rows @ rows ! j # drop (Suc j) rows)"
    by simp
  then show ?thesis
    using assms(2) by (simp add: well_formed_rows_def)
qed

lemma in_drop_nth:
  "y \<in> set (drop n xs) \<Longrightarrow> \<exists>k. n \<le> k \<and> k < length xs \<and> xs ! k = y"
proof -
  assume "y \<in> set (drop n xs)"
  then obtain i where "i < length (drop n xs)" "drop n xs ! i = y"
    by (auto simp: in_set_conv_nth)
  then have "n \<le> n + i \<and> n + i < length xs \<and> xs ! (n + i) = y"
    by auto
  then show ?thesis by blast
qed

lemma query_output:
  "snd (query_service m k out) =
     out @ (case map_of m k of
              Some row \<Rightarrow> magnifier @ '' Found: '' @ concat (map (\<lambda>col. col @ '' | '') row) @ [CHR 0x0A]
            | None \<Rightarrow> cross_mark @ '' Not found: '' @ k @ [CHR 0x0A])"
proof -
  have "\<And>acc. foldl (\<lambda>out col. out @ col @ '' | '') acc row
          = acc @ concat (map (\<lambda>col. col @ '' | '') row)" for row :: "string list"
    by (induction row) simp_all
  then show ?thesis
    by (simp add: query_service_def split: option.splits)
qed

lemma count_list_distinct: "distinct xs \<Longrightarrow> x \<in> set xs \<Longrightarrow> count_list xs x = 1"
  by (induction xs) (auto simp: count_list_0_iff)

lemma distinct_malformed: "distinct (malformed_line_numbers hs rows)"
  by (simp add: malformed_line_numbers_def distinct_map inj_on_def)

lemma malformed_mem:
  "k < length rows \<Longrightarrow> length (rows ! k) \<noteq> length hs \<Longrightarrow> k + 2 \<in> set (malformed_line_numbers hs rows)"
  by (simp add: malformed_line_numbers_def)

lemma well_formed_not_malformed:
  "k < length rows \<Longrightarrow> length (rows ! k) = length hs \<Longrightarrow> k + 2 \<notin> set (malformed_line_numbers hs rows)"
  by (auto simp: malformed_line_numbers_def)

lemma missing_names_not_Nil:
  "missing_names hs \<noteq> [] \<longleftrightarrow>
     ''package'' \<notin> set hs \<or> ''architecture'' \<notin> set hs \<or> ''release'' \<notin> set hs"
  by (auto simp: missing_names_def)

lemma set_update_subset: "set (AList.update k v m) \<subseteq> insert (k, v) (set m)"
  by (induction m) auto

lemma concat_sep_join:
  "row \<noteq> [] \<Longrightarrow> concat (map (\<lambda>col. col @ sep) row) = join_with sep row @ sep"
  by (induction sep row rule: join_with.induct) simp_all

section \<open>Permuted columns\<close>

lemma is_permutation_length: "is_permutation perm n \<Longrightarrow> length perm = n"
  using distinct_card [of perm] by (simp add: is_permutation_def)

lemma set_permute:
  "is_permutation perm (length xs) \<Longrightarrow> set (permute perm xs) = set xs"
  by (simp add: is_permutation_def permute_def nth_image)

lemma length_permute: "length (permute perm xs) = length perm"
  by (simp add: permute_def)

lemma nth_permute: "i < length perm \<Longrightarrow> permute perm xs ! i = xs ! (perm ! i)"
  by (simp add: permute_def)

lemma occurs_once_unique:
  "count_list xs x = 1 \<Longrightarrow> i < length xs \<Longrightarrow> j < length xs \<Longrightarrow> xs ! i = x \<Longrightarrow> xs ! j = x
     \<Longrightarrow> i = j"
proof (induction xs arbitrary: i j)
  case Nil
  then show ?case by simp
next
  case (Cons y ys)
  show ?case
  proof (cases "y = x")
    case True
    with Cons.prems(1) have "x \<notin> set ys" by (simp add: count_list_0_iff)
    then have "i = 0" "j = 0"
      using Cons.prems(2-5) by (auto simp: nth_Cons split: nat.splits)
    then show ?thesis by simp
  next
    case False
    with Cons.prems obtain i' j' where "i = Suc i'" "j = Suc j'"
      by (auto simp: nth_Cons split: nat.splits)
    with Cons False show ?thesis by auto
  qed
qed

lemma permuted_position:
  assumes "is_permutation perm (length hs)" and "count_list hs name = 1"
    and "last_occurrence hs name p" and "last_occurrence (permute perm hs) name p'"
  shows "p' < length perm \<and> perm ! p' = p"
proof -
  have len: "length perm = length hs" using assms(1) by (rule is_permutation_length)
  have p': "p' < length perm" "permute perm hs ! p' = name"
    using assms(4) by (simp_all add: last_occurrence_def length_permute)
  then have "perm ! p' \<in> set perm" by simp
  then have in_range: "perm ! p' < length hs" using assms(1) by (simp add: is_permutation_def)
  have there: "hs ! (perm ! p') = name" using p' by (simp add: nth_permute)
  have p: "p < length hs" "hs ! p = name"
    using assms(3) by (simp_all add: last_occurrence_def)
  have "perm ! p' = p"
    using assms(2) in_range p(1) there p(2) by (rule occurs_once_unique)
  with p'(1) show ?thesis by simp
qed

lemma update_map_snd:
  "AList.update k (f v) (map (\<lambda>(k, row). (k, f row)) m) = map (\<lambda>(k, row). (k, f row)) (AList.update k v m)"
  by (induction m) auto

lemma fold_permuted:
  assumes "\<forall>w \<in> set ws. composite_key p' a' r' (f w) = composite_key p a r w"
  shows "foldl (insert_row p' a' r') (map (\<lambda>(k, row). (k, f row)) m) (map f ws) =
         map (\<lambda>(k, row). (k, f row)) (foldl (insert_row p a r) m ws)"
  using assms
proof (induction ws arbitrary: m)
  case Nil
  show ?case by simp
next
  case (Cons w ws)
  have "insert_row p' a' r' (map (\<lambda>(k, row). (k, f row)) m) (f w) =
        map (\<lambda>(k, row). (k, f row)) (insert_row p a r m w)"
    using Cons.prems by (simp add: insert_row_def update_map_snd)
  then show ?case using Cons by simp
qed

lemma well_formed_permuted:
  assumes "list_all2 (\<lambda>row row'. if length row = length hs then row' = f row
                                  else length row' \<noteq> length hs') rows rows'"
    and "\<And>row. length row = length hs \<Longrightarrow> length (f row) = length hs'"
  shows "well_formed_rows hs' rows' = map f (well_formed_rows hs rows)"
  using assms(1)
  by (induction rule: list_all2_induct) (auto simp: well_formed_rows_def assms(2) split: if_splits)

lemma map_of_fold_from:
  assumes "j < length rows" and "length (rows ! j) = length hs"
  shows "\<exists>row \<in> set (well_formed_rows hs (drop j rows)).
           composite_key p a r row = composite_key p a r (rows ! j) \<and>
           map_of (foldl (insert_row p a r) m (well_formed_rows hs rows))
             (composite_key p a r (rows ! j)) = Some row"
proof -
  let ?k = "composite_key p a r (rows ! j)"
  let ?ws1 = "well_formed_rows hs (take j rows)" and ?ws2 = "well_formed_rows hs (drop j rows)"
  have "well_formed_rows hs (take j rows @ drop j rows) = ?ws1 @ ?ws2"
    unfolding well_formed_rows_def by (rule filter_append)
  then have all: "well_formed_rows hs rows = ?ws1 @ ?ws2" by simp
  have "rows ! j \<in> set (drop j rows)"
    using assms(1) by (metis Cons_nth_drop_Suc list.set_intros(1))
  then have "\<exists>x \<in> set ?ws2. composite_key p a r x = ?k"
    using assms(2) by (auto simp: well_formed_rows_def)
  from split_list_last_prop [OF this]
  obtain ys x zs where ws2: "?ws2 = ys @ x # zs" and x: "composite_key p a r x = ?k"
    and zs: "\<forall>z \<in> set zs. composite_key p a r z \<noteq> ?k"
    by blast
  have "map_of (foldl (insert_row p a r) m ((?ws1 @ ys) @ x # zs)) (composite_key p a r x) = Some x"
    by (rule map_of_fold_last) (use zs x in simp)
  then have "map_of (foldl (insert_row p a r) m (well_formed_rows hs rows)) ?k = Some x"
    by (simp add: all ws2 x)
  moreover have "x \<in> set ?ws2" by (simp add: ws2)
  ultimately show ?thesis using x by blast
qed

lemma header_fields_empty:
  "content = [] \<or> (\<exists>rest. content = CHR 0x0A # rest) \<Longrightarrow> header_fields content = []"
  by (auto simp: header_fields_def header_line_eq split_csv_row_eq drop_last_empty_def)

section \<open>The sample input\<close>

lemma sample_file_lines:
  "file_lines sample_csv =
     [''package,architecture,release,version'', ''foo,amd64,20.04,1.0'', ''broken,row'',
      ''foo,amd64,20.04,2.0'', ''openssl,amd64,22.04,3.0'']"
  by (simp add: sample_csv_def file_lines_def drop_last_empty_def)

lemma sample_header_fields:
  "header_fields sample_csv = [''package'', ''architecture'', ''release'', ''version'']"
  by (simp add: header_fields_def header_line_def sample_file_lines split_csv_row_eq
        drop_last_empty_def)

lemma sample_data_rows:
  "data_rows sample_csv =
     [[''foo'', ''amd64'', ''20.04'', ''1.0''], [''broken'', ''row''],
      [''foo'', ''amd64'', ''20.04'', ''2.0''], [''openssl'', ''amd64'', ''22.04'', ''3.0'']]"
  by (simp add: data_rows_def sample_file_lines split_csv_row_eq drop_last_empty_def)

lemma sample_valid_header: "valid_header (header_fields sample_csv)"
  by (simp add: sample_header_fields valid_header_def npos_def)

lemma sample_positions:
  "header_loop (header_fields sample_csv) 0 (npos, npos, npos) = (0, 1, 2)"
  by (simp add: sample_header_fields header_loop.simps)

lemma sample_opened: "length sample_argv = 2" "sample_fs (sample_argv ! 1) = Some sample_csv"
  by (simp_all add: sample_argv_def sample_fs_def)

lemma duplicate_header_fields:
  "header_fields duplicate_csv = [''package'', ''package'', ''architecture'', ''release'']"
  by (simp add: duplicate_csv_def header_fields_def header_line_def file_lines_def
        split_csv_row_eq drop_last_empty_def)

lemma duplicate_data_rows:
  "data_rows duplicate_csv = [[''old'', ''new'', ''amd64'', ''22.04'']]"
  by (simp add: duplicate_csv_def data_rows_def file_lines_def split_csv_row_eq drop_last_empty_def)

lemma duplicate_positions:
  "header_loop (header_fields duplicate_csv) 0 (npos, npos, npos) = (1, 2, 3)"
  by (simp add: duplicate_header_fields header_loop.simps)

lemma permuted_header_fields:
  "header_fields permuted_csv = [''version'', ''architecture'', ''package'', ''release'']"
  by (simp add: permuted_csv_def header_fields_def header_line_def file_lines_def
        split_csv_row_eq drop_last_empty_def)

lemma permuted_data_rows:
  "data_rows permuted_csv =
     [[''1.0'', ''amd64'', ''foo'', ''20.04''], [''broken'', ''row''],
      [''2.0'', ''amd64'', ''foo'', ''20.04''], [''3.0'', ''amd64'', ''openssl'', ''22.04'']]"
  by (simp add: permuted_csv_def data_rows_def file_lines_def split_csv_row_eq drop_last_empty_def)

lemma sample_permutation: "is_permutation [3, 1, 0, 2] (length (header_fields sample_csv))"
  by (auto simp: is_permutation_def sample_header_fields)

lemma duplicate_permutation: "is_permutation [1, 0, 2, 3] (length (header_fields duplicate_csv))"
  by (auto simp: is_permutation_def duplicate_header_fields)

section \<open>The claims\<close>

subsection \<open>C1: Row Splitter\<close>

text \<open>
  C1, as amended. For every line, \<open>split_csv_row\<close> returns the segments between the
  occurrences of \<open>,\<close> in order, empty segments between consecutive delimiters and
  before the first delimiter included, except that an empty last segment is dropped.
  So the number of fields is the number of delimiter-separated segments (one more than
  the number of delimiters) unless the line is empty or ends in \<open>,\<close>, where it is one
  less: a line ending in \<open>,\<close> has no final empty field and the empty line has no
  field at all.
\<close>

theorem C1_split_csv_row_drops_final_empty:
  "split_csv_row line = drop_last_empty (spec_split CHR '','' line) \<and>
   length (split_csv_row line) =
     (if line = [] \<or> last line = CHR '','' then count_list line CHR '',''
      else Suc (count_list line CHR '','')) \<and>
   length (spec_split CHR '','' line) = Suc (count_list line CHR '','')"
  by (simp add: split_csv_row_eq drop_last_empty_def last_spec_split_empty length_spec_split)

theorem C1_split_csv_row_witness:
  "split_csv_row '',a,,b,'' = drop_last_empty (spec_split CHR '','' '',a,,b,'') \<and>
   split_csv_row '',a,,b,'' = ['''', ''a'', '''', ''b'']"
  using C1_split_csv_row_drops_final_empty [of "'',a,,b,''"]
  by (simp add: drop_last_empty_def)

text \<open>
  C1 as stated fails: the line \<open>a,\<close> has two segments and the empty line has one, but
  the Row Splitter returns one field and no field.
\<close>

theorem C1_counterexample:
  "split_csv_row ''a,'' = [''a''] \<and> spec_split CHR '','' ''a,'' = [''a'', ''''] \<and>
   split_csv_row '''' = [] \<and> spec_split CHR '','' '''' = [''''] \<and>
   length (split_csv_row ''a,'') \<noteq> Suc (count_list ''a,'' CHR '','')"
  by (simp add: split_csv_row_def open_stream_def split_loop.simps getline_def)

subsection \<open>C2: last write wins\<close>

text \<open>
  C2, as amended. Let the header be valid and let the data rows at positions \<open>i < j\<close>
  both have as many fields as the header and the same package, architecture and release
  fields. Then the run succeeds with exit status 0 and both rows build the same composite
  key. The index maps this key to a well-formed row that builds this key at position
  \<open>j\<close> or later, never to an earlier one; provided no well-formed row after the row at
  \<open>j\<close> builds the same composite key, the index maps the key to exactly the field
  sequence of the row at \<open>j\<close>. Standard error holds the warnings of the malformed
  rows only; no warning names line \<open>i + 2\<close> or line \<open>j + 2\<close>.
\<close>

theorem C2_last_write_wins:
  assumes "length argv = 2" and "fs (argv ! 1) = Some content"
    and "valid_header (header_fields content)"
    and "header_loop (header_fields content) 0 (npos, npos, npos) = (p, a, r)"
    and "i < j" and "j < length (data_rows content)"
    and "length (data_rows content ! i) = length (header_fields content)"
    and "length (data_rows content ! j) = length (header_fields content)"
    and "data_rows content ! i ! p = data_rows content ! j ! p"
    and "data_rows content ! i ! a = data_rows content ! j ! a"
    and "data_rows content ! i ! r = data_rows content ! j ! r"
  shows "\<exists>out. main argv fs = Some out \<and> exit_code out = 0 \<and>
           make_key (data_rows content ! i) p a r = Some (composite_key p a r (data_rows content ! j)) \<and>
           make_key (data_rows content ! j) p a r = Some (composite_key p a r (data_rows content ! j)) \<and>
           (\<exists>row \<in> set (well_formed_rows (header_fields content) (drop j (data_rows content))).
              composite_key p a r row = composite_key p a r (data_rows content ! j) \<and>
              map_of (hashmap out) (composite_key p a r (data_rows content ! j)) = Some row) \<and>
           ((\<forall>k \<in> {Suc j..<length (data_rows content)}.
               length (data_rows content ! k) = length (header_fields content) \<longrightarrow>
               composite_key p a r (data_rows content ! k) \<noteq> composite_key p a r (data_rows content ! j))
            \<longrightarrow> map_of (hashmap out) (composite_key p a r (data_rows content ! j))
                  = Some (data_rows content ! j)) \<and>
           cerr out = concat (map warning (malformed_line_numbers (header_fields content) (data_rows content))) \<and>
           i + 2 \<notin> set (malformed_line_numbers (header_fields content) (data_rows content)) \<and>
           j + 2 \<notin> set (malformed_line_numbers (header_fields content) (data_rows content))"
proof -
  let ?hs = "header_fields content" and ?rows = "data_rows content"
  let ?k = "composite_key p a r (?rows ! j)"
  let ?idx = "foldl (insert_row p a r) [] (well_formed_rows ?hs ?rows)"
  note pos = valid_header_positions [OF assms(3,4)]
  have same: "composite_key p a r (?rows ! i) = ?k"
    using assms(9,10,11) by (simp add: composite_key_def)
  have keys: "make_key (?rows ! i) p a r = Some ?k" "make_key (?rows ! j) p a r = Some ?k"
    using pos(7,8,9) assms(7,8) same by (simp_all add: make_key_in_range)
  have stored: "\<exists>row \<in> set (well_formed_rows ?hs (drop j ?rows)).
      composite_key p a r row = ?k \<and> map_of ?idx ?k = Some row"
    using assms(6,8) by (rule map_of_fold_from)
  have exact: "map_of ?idx ?k = Some (?rows ! j)"
    if none: "\<forall>k \<in> {Suc j..<length ?rows}.
        length (?rows ! k) = length ?hs \<longrightarrow> composite_key p a r (?rows ! k) \<noteq> ?k"
  proof -
    have later: "\<forall>y \<in> set (well_formed_rows ?hs (drop (Suc j) ?rows)). composite_key p a r y \<noteq> ?k"
    proof
      fix y assume "y \<in> set (well_formed_rows ?hs (drop (Suc j) ?rows))"
      then have y: "y \<in> set (drop (Suc j) ?rows)" "length y = length ?hs"
        by (simp_all add: well_formed_rows_def)
      from in_drop_nth [OF y(1)] obtain k where "Suc j \<le> k" "k < length ?rows" "?rows ! k = y"
        by blast
      with none y(2) show "composite_key p a r y \<noteq> ?k"
        by auto
    qed
    show ?thesis
      unfolding well_formed_rows_split [OF assms(6,8)]
      by (rule map_of_fold_last [OF later])
  qed
  have "i < length ?rows" using assms(5,6) by simp
  then have wi: "i + 2 \<notin> set (malformed_line_numbers ?hs ?rows)"
    using assms(7) by (rule well_formed_not_malformed)
  have wj: "j + 2 \<notin> set (malformed_line_numbers ?hs ?rows)"
    using assms(6,8) by (rule well_formed_not_malformed)
  have out: "main argv fs = Some \<lparr>exit_code = 0,
          cout = snd (query_service ?idx ''openssl|amd64|22.04'' (loaded_line (length ?idx))),
          cerr = concat (map warning (malformed_line_numbers ?hs ?rows)),
          hashmap = ?idx\<rparr>"
    using assms(1,2,3,4) by (rule main_valid)
  show ?thesis
    unfolding out using keys stored exact wi wj by simp
qed

theorem C2_witness:
  "\<exists>out. main sample_argv sample_fs = Some out \<and> exit_code out = 0 \<and>
     map_of (hashmap out) ''foo|amd64|20.04'' = Some [''foo'', ''amd64'', ''20.04'', ''2.0''] \<and>
     cerr out = warning 3"
  using C2_last_write_wins [of sample_argv sample_fs sample_csv 0 1 2 0 2,
        OF sample_opened sample_valid_header sample_positions]
  by (auto simp: sample_data_rows sample_header_fields composite_key_def
        malformed_line_numbers_def atLeastLessThan_upt numeral_3_eq_3 make_key_def)

text \<open>
  C2 as stated fails: the first two data rows of this file are well formed and have the
  same triple, the third has another triple, and all three build the key \<open>a|b|c|d\<close>,
  since the fields are joined without escaping. After the build pass the index maps the
  key to the third row, not to the later one of the two rows with the same triple.
\<close>

theorem C2_counterexample:
  "header_fields collision_csv = [''package'', ''architecture'', ''release'', ''version''] \<and>
   data_rows collision_csv =
     [[''a|b'', ''c'', ''d'', ''1''], [''a|b'', ''c'', ''d'', ''2''], [''a'', ''b|c'', ''d'', ''3'']] \<and>
   header_loop (header_fields collision_csv) 0 (npos, npos, npos) = (0, 1, 2) \<and>
   make_key (data_rows collision_csv ! 0) 0 1 2 = Some ''a|b|c|d'' \<and>
   make_key (data_rows collision_csv ! 1) 0 1 2 = Some ''a|b|c|d'' \<and>
   map_option hashmap (main [''./csv_hashmap'', ''p.csv''] [''p.csv'' \<mapsto> collision_csv]) =
     Some [(''a|b|c|d'', [''a'', ''b|c'', ''d'', ''3''])] \<and>
   map_option (\<lambda>out. map_of (hashmap out) ''a|b|c|d'')
       (main [''./csv_hashmap'', ''p.csv''] [''p.csv'' \<mapsto> collision_csv]) \<noteq>
     Some (Some (data_rows collision_csv ! 1))"
proof -
  have hf: "header_fields collision_csv = [''package'', ''architecture'', ''release'', ''version'']"
    by (simp add: collision_csv_def header_fields_def header_line_def file_lines_def
          split_csv_row_eq drop_last_empty_def)
  have rows: "data_rows collision_csv =
     [[''a|b'', ''c'', ''d'', ''1''], [''a|b'', ''c'', ''d'', ''2''], [''a'', ''b|c'', ''d'', ''3'']]"
    by (simp add: collision_csv_def data_rows_def file_lines_def split_csv_row_eq
          drop_last_empty_def)
  have pos: "header_loop [''package'', ''architecture'', ''release'', ''version''] 0
               (npos, npos, npos) = (0, 1, 2)"
    by (simp add: header_loop.simps)
  have run: "map_option hashmap (main [''./csv_hashmap'', ''p.csv''] [''p.csv'' \<mapsto> collision_csv]) =
     Some [(''a|b|c|d'', [''a'', ''b|c'', ''d'', ''3''])]"
    by (simp add: main_def collision_csv_def open_stream_def getline_def split_csv_row_def
          split_loop.simps header_loop.simps index_loop.simps make_key_def npos_def
          query_service_def Let_def)
  then obtain out where out: "main [''./csv_hashmap'', ''p.csv''] [''p.csv'' \<mapsto> collision_csv] = Some out"
    "hashmap out = [(''a|b|c|d'', [''a'', ''b|c'', ''d'', ''3''])]"
    by auto
  show ?thesis
    using run by (simp add: hf rows pos out make_key_def)
qed

subsection \<open>C3: reported entry count\<close>

text \<open>
  C3. For every input with a valid header, the number of entries of the index after the
  build pass, which is the number printed in the first line of standard output, is the
  number of distinct composite keys among the data rows that have as many fields as the
  header.
\<close>

theorem C3_entry_count:
  assumes "length argv = 2" and "fs (argv ! 1) = Some content"
    and "valid_header (header_fields content)"
    and "header_loop (header_fields content) 0 (npos, npos, npos) = (p, a, r)"
  shows "\<exists>out rest. main argv fs = Some out \<and>
           length (hashmap out) =
             card (composite_key p a r ` set (well_formed_rows (header_fields content) (data_rows content))) \<and>
           cout out =
             loaded_line (card (composite_key p a r `
                set (well_formed_rows (header_fields content) (data_rows content)))) @ rest"
  by (simp add: main_valid [of argv fs content p a r, OF assms] length_fold query_output)

theorem C3_witness:
  "\<exists>out rest. main sample_argv sample_fs = Some out \<and> length (hashmap out) = 2 \<and>
     cout out = loaded_line 2 @ rest"
  using C3_entry_count [of sample_argv sample_fs sample_csv 0 1 2,
        OF sample_opened sample_valid_header sample_positions]
  by (simp add: sample_data_rows sample_header_fields composite_key_def well_formed_rows_def
        numeral_2_eq_2)

subsection \<open>C4: malformed rows\<close>

text \<open>
  C4. Let the header be valid and let the data row at position \<open>k\<close>, which is line
  \<open>k + 2\<close> of the file, have a field count different from the header's. Then the run
  is not aborted: it ends with exit status 0, having processed all rows. The index is
  built from the well-formed rows only, of which this row is none, so it contributes no
  entry. Standard error is the sequence of the warnings of the malformed rows in file
  order, and among them the warning that names line \<open>k + 2\<close> occurs exactly once.
\<close>

theorem C4_malformed_rows_skipped:
  assumes "length argv = 2" and "fs (argv ! 1) = Some content"
    and "valid_header (header_fields content)"
    and "header_loop (header_fields content) 0 (npos, npos, npos) = (p, a, r)"
    and "k < length (data_rows content)"
    and "length (data_rows content ! k) \<noteq> length (header_fields content)"
  shows "\<exists>out. main argv fs = Some out \<and> exit_code out = 0 \<and>
           hashmap out = foldl (insert_row p a r) []
                           (well_formed_rows (header_fields content) (data_rows content)) \<and>
           data_rows content ! k \<notin> set (well_formed_rows (header_fields content) (data_rows content)) \<and>
           cerr out = concat (map warning (malformed_line_numbers (header_fields content) (data_rows content))) \<and>
           count_list (map warning (malformed_line_numbers (header_fields content) (data_rows content)))
             (warning (k + 2)) = 1"
proof -
  let ?hs = "header_fields content" and ?rows = "data_rows content"
  have "count_list (malformed_line_numbers ?hs ?rows) (k + 2) = 1"
    using distinct_malformed malformed_mem [OF assms(5,6)] by (rule count_list_distinct)
  moreover have "inj warning" using warning_inj by (auto simp: inj_def)
  ultimately have "count_list (map warning (malformed_line_numbers ?hs ?rows)) (warning (k + 2)) = 1"
    by (simp add: count_list_map_conv)
  moreover have "?rows ! k \<notin> set (well_formed_rows ?hs ?rows)"
    using assms(6) by (simp add: well_formed_rows_def)
  ultimately show ?thesis
    by (simp add: main_valid [of argv fs content p a r, OF assms(1,2,3,4)])
qed

theorem C4_witness:
  "\<exists>out. main sample_argv sample_fs = Some out \<and> exit_code out = 0 \<and>
     hashmap out = [(''foo|amd64|20.04'', [''foo'', ''amd64'', ''20.04'', ''2.0'']),
                    (''openssl|amd64|22.04'', [''openssl'', ''amd64'', ''22.04'', ''3.0''])] \<and>
     cerr out = warning 3"
  using C4_malformed_rows_skipped [of sample_argv sample_fs sample_csv 0 1 2 1,
        OF sample_opened sample_valid_header sample_positions]
  by (simp add: sample_data_rows sample_header_fields composite_key_def well_formed_rows_def
        malformed_line_numbers_def insert_row_def numeral_3_eq_3)

subsection \<open>C5: missing columns\<close>

text \<open>
  C5, as amended. Whenever one or more of the required names \<open>package\<close>,
  \<open>architecture\<close>, \<open>release\<close> are absent from the header row under exact,
  case-sensitive comparison, the position of each absent name stays \<open>npos\<close> and the
  run fails: exit status 1 and, on standard error, one fixed message that lists all three
  required names, whichever of them are absent.
\<close>

theorem C5_missing_column_fails_with_fixed_message:
  assumes "length argv = 2" and "fs (argv ! 1) = Some content"
    and "header_loop (header_fields content) 0 (npos, npos, npos) = (p, a, r)"
    and "missing_names (header_fields content) \<noteq> []"
  shows "(''package'' \<in> set (missing_names (header_fields content)) \<longrightarrow> p = npos) \<and>
         (''architecture'' \<in> set (missing_names (header_fields content)) \<longrightarrow> a = npos) \<and>
         (''release'' \<in> set (missing_names (header_fields content)) \<longrightarrow> r = npos) \<and>
         (\<exists>out. main argv fs = Some out \<and> exit_code out = 1 \<and>
                cerr out = ''Missing required columns (package, architecture, release)'' @ [CHR 0x0A])"
proof -
  let ?hs = "header_fields content"
  have eqs: "p = find_last ''package'' ?hs 0 npos" "a = find_last ''architecture'' ?hs 0 npos"
    "r = find_last ''release'' ?hs 0 npos"
    using assms(3) by (simp_all add: header_loop_eq)
  have "''package'' \<in> set (missing_names ?hs) \<longrightarrow> p = npos"
    "''architecture'' \<in> set (missing_names ?hs) \<longrightarrow> a = npos"
    "''release'' \<in> set (missing_names ?hs) \<longrightarrow> r = npos"
    by (auto simp: eqs missing_names_def find_last_absent)
  moreover have "main argv fs =
      Some \<lparr>exit_code = 1, cout = [], cerr = missing_columns_message, hashmap = []\<rparr>"
    using assms(1,2) by (rule main_missing) (use assms(4) in \<open>simp add: missing_names_not_Nil\<close>)
  ultimately show ?thesis by (simp add: missing_columns_message_def)
qed

theorem C5_witness:
  "missing_names (header_fields ''Package,architecture,version'') = [''package'', ''release''] \<and>
   (\<exists>out. main [''./csv_hashmap'', ''p.csv''] [''p.csv'' \<mapsto> ''Package,architecture,version''] = Some out \<and>
          exit_code out = 1 \<and>
          cerr out = ''Missing required columns (package, architecture, release)'' @ [CHR 0x0A])"
proof -
  have hf: "header_fields ''Package,architecture,version'' = [''Package'', ''architecture'', ''version'']"
    by (simp add: header_fields_def header_line_def file_lines_def split_csv_row_eq drop_last_empty_def)
  have pos: "header_loop (header_fields ''Package,architecture,version'') 0 (npos, npos, npos) = (npos, 1, npos)"
    by (simp add: hf header_loop.simps)
  have miss: "missing_names (header_fields ''Package,architecture,version'') = [''package'', ''release'']"
    by (simp add: hf missing_names_def)
  show ?thesis
    using C5_missing_column_fails_with_fixed_message
      [of "[''./csv_hashmap'', ''p.csv'']" "[''p.csv'' \<mapsto> ''Package,architecture,version'']"
          "''Package,architecture,version''" npos 1 npos, OF _ _ pos]
    by (simp add: miss)
qed

text \<open>
  C5 as stated fails: a header that lacks only \<open>release\<close> and a header that lacks
  only \<open>package\<close> end in the same exit status and the same text on standard error, so
  the error condition does not tell which names are absent.
\<close>

theorem C5_counterexample:
  "missing_names (split_csv_row ''package,architecture'') = [''release''] \<and>
   missing_names (split_csv_row ''architecture,release'') = [''package''] \<and>
   main [''./csv_hashmap'', ''p.csv''] [''p.csv'' \<mapsto> ''package,architecture''] =
     Some \<lparr>exit_code = 1, cout = [],
           cerr = ''Missing required columns (package, architecture, release)'' @ [CHR 0x0A],
           hashmap = []\<rparr> \<and>
   main [''./csv_hashmap'', ''p.csv''] [''p.csv'' \<mapsto> ''architecture,release''] =
     Some \<lparr>exit_code = 1, cout = [],
           cerr = ''Missing required columns (package, architecture, release)'' @ [CHR 0x0A],
           hashmap = []\<rparr>"
  by (simp add: main_def missing_names_def split_csv_row_def open_stream_def split_loop.simps
        getline_def header_loop.simps npos_def)

subsection \<open>C6: order of the columns\<close>

text \<open>
  C6, as amended. Let the header be valid with each of the names \<open>package\<close>,
  \<open>architecture\<close>, \<open>release\<close> occurring exactly once, and let a second input have
  the header fields in permuted order and, row by row, the same permutation of the fields
  of every well-formed data row, a malformed row staying malformed. Then both runs
  succeed and give the same index: the same composite keys, each mapped to the
  correspondingly permuted stored row.
\<close>

theorem C6_permuted_columns:
  assumes "length argv = 2" and "fs (argv ! 1) = Some content" and "fs' (argv ! 1) = Some content'"
    and "valid_header (header_fields content)"
    and "count_list (header_fields content) ''package'' = 1"
    and "count_list (header_fields content) ''architecture'' = 1"
    and "count_list (header_fields content) ''release'' = 1"
    and "is_permutation perm (length (header_fields content))"
    and "header_fields content' = permute perm (header_fields content)"
    and "list_all2 (\<lambda>row row'. if length row = length (header_fields content)
                                then row' = permute perm row
                                else length row' \<noteq> length (header_fields content'))
           (data_rows content) (data_rows content')"
  shows "\<exists>out out'. main argv fs = Some out \<and> main argv fs' = Some out' \<and>
           hashmap out' = map (\<lambda>(k, row). (k, permute perm row)) (hashmap out) \<and>
           map fst (hashmap out') = map fst (hashmap out)"
proof -
  let ?hs = "header_fields content" and ?hs' = "header_fields content'"
  let ?rows = "data_rows content" and ?rows' = "data_rows content'"
  let ?f = "permute perm"
  have len: "length perm = length ?hs" using assms(8) by (rule is_permutation_length)
  have len': "length ?hs' = length ?hs" by (simp add: assms(9) length_permute len)
  have valid': "valid_header ?hs'"
    using assms(4) set_permute [OF assms(8)] by (simp add: valid_header_def assms(9) length_permute len)
  obtain p a r where pos: "header_loop ?hs 0 (npos, npos, npos) = (p, a, r)"
    by (cases "header_loop ?hs 0 (npos, npos, npos)") auto
  obtain p' a' r' where pos': "header_loop ?hs' 0 (npos, npos, npos) = (p', a', r')"
    by (cases "header_loop ?hs' 0 (npos, npos, npos)") auto
  note vp = valid_header_positions [OF assms(4) pos]
  note vp' = valid_header_positions [OF valid' pos']
  have pp: "p' < length perm \<and> perm ! p' = p"
    using assms(8,5) vp(1) vp'(1) unfolding assms(9) by (rule permuted_position)
  have aa: "a' < length perm \<and> perm ! a' = a"
    using assms(8,6) vp(2) vp'(2) unfolding assms(9) by (rule permuted_position)
  have rr: "r' < length perm \<and> perm ! r' = r"
    using assms(8,7) vp(3) vp'(3) unfolding assms(9) by (rule permuted_position)
  have key: "\<forall>w \<in> set (well_formed_rows ?hs ?rows).
      composite_key p' a' r' (?f w) = composite_key p a r w"
    using pp aa rr by (simp add: composite_key_def nth_permute)
  have wf: "well_formed_rows ?hs' ?rows' = map ?f (well_formed_rows ?hs ?rows)"
    using assms(10) by (rule well_formed_permuted) (simp add: length_permute len len')
  have idx: "foldl (insert_row p' a' r') [] (well_formed_rows ?hs' ?rows') =
      map (\<lambda>(k, row). (k, ?f row)) (foldl (insert_row p a r) [] (well_formed_rows ?hs ?rows))"
    using fold_permuted [OF key, of "[]"] by (simp add: wf)
  have "map fst (map (\<lambda>(k, row). (k, ?f row)) m) = map fst m" for m :: index
    by (induction m) auto
  then show ?thesis
    by (simp add: main_valid [of argv fs content p a r, OF assms(1,2,4) pos]
          main_valid [of argv fs' content' p' a' r', OF assms(1,3) valid' pos'] idx)
qed

theorem C6_witness:
  "\<exists>out out'. main sample_argv sample_fs = Some out \<and>
      main sample_argv [''packages.csv'' \<mapsto> permuted_csv] = Some out' \<and>
      hashmap out' = map (\<lambda>(k, row). (k, permute [3, 1, 0, 2] row)) (hashmap out) \<and>
      map fst (hashmap out') = map fst (hashmap out)"
proof -
  have opened': "[''packages.csv'' \<mapsto> permuted_csv] (sample_argv ! 1) = Some permuted_csv"
    by (simp add: sample_argv_def)
  have once: "count_list (header_fields sample_csv) ''package'' = 1"
    "count_list (header_fields sample_csv) ''architecture'' = 1"
    "count_list (header_fields sample_csv) ''release'' = 1"
    by (simp_all add: sample_header_fields)
  note perm = sample_permutation
  have hdr: "header_fields permuted_csv = permute [3, 1, 0, 2] (header_fields sample_csv)"
    by (simp add: permuted_header_fields sample_header_fields permute_def)
  have rows: "list_all2 (\<lambda>row row'. if length row = length (header_fields sample_csv)
                                then row' = permute [3, 1, 0, 2] row
                                else length row' \<noteq> length (header_fields permuted_csv))
           (data_rows sample_csv) (data_rows permuted_csv)"
    by (simp add: permuted_header_fields sample_header_fields permuted_data_rows sample_data_rows
          permute_def)
  show ?thesis
    by (rule C6_permuted_columns
          [of sample_argv sample_fs sample_csv "[''packages.csv'' \<mapsto> permuted_csv]"
              permuted_csv "[3, 1, 0, 2]",
           OF sample_opened opened' sample_valid_header once perm hdr rows])
qed

text \<open>
  C6 as stated fails for a valid header that names a required column twice: with the
  header \<open>package,package,architecture,release\<close> and the first two columns
  exchanged, the header is unchanged and the key is built from the other field, so the
  two indexes have different keys.
\<close>

theorem C6_counterexample:
  "valid_header (header_fields duplicate_csv) \<and>
   is_permutation [1, 0, 2, 3] (length (header_fields duplicate_csv)) \<and>
   header_fields swapped_csv = permute [1, 0, 2, 3] (header_fields duplicate_csv) \<and>
   data_rows swapped_csv = map (permute [1, 0, 2, 3]) (data_rows duplicate_csv) \<and>
   map_option hashmap (main [''./csv_hashmap'', ''p.csv''] [''p.csv'' \<mapsto> duplicate_csv]) =
     Some [(''new|amd64|22.04'', [''old'', ''new'', ''amd64'', ''22.04''])] \<and>
   map_option hashmap (main [''./csv_hashmap'', ''p.csv''] [''p.csv'' \<mapsto> swapped_csv]) =
     Some [(''old|amd64|22.04'', [''new'', ''old'', ''amd64'', ''22.04''])]"
proof -
  have "header_fields swapped_csv = [''package'', ''package'', ''architecture'', ''release'']"
    "data_rows swapped_csv = [[''new'', ''old'', ''amd64'', ''22.04'']]"
    by (simp_all add: swapped_csv_def header_fields_def header_line_def data_rows_def file_lines_def
        split_csv_row_eq drop_last_empty_def)
  moreover have "map_option hashmap (main [''./csv_hashmap'', ''p.csv''] [''p.csv'' \<mapsto> duplicate_csv]) =
     Some [(''new|amd64|22.04'', [''old'', ''new'', ''amd64'', ''22.04''])]"
    by (simp add: main_def duplicate_csv_def open_stream_def getline_def split_csv_row_def
          split_loop.simps header_loop.simps index_loop.simps make_key_def npos_def
          query_service_def Let_def)
  moreover have "map_option hashmap (main [''./csv_hashmap'', ''p.csv''] [''p.csv'' \<mapsto> swapped_csv]) =
     Some [(''old|amd64|22.04'', [''new'', ''old'', ''amd64'', ''22.04''])]"
    by (simp add: main_def swapped_csv_def open_stream_def getline_def split_csv_row_def
          split_loop.simps header_loop.simps index_loop.simps make_key_def npos_def
          query_service_def Let_def)
  ultimately show ?thesis
    using duplicate_permutation
    by (simp add: duplicate_header_fields duplicate_data_rows valid_header_def npos_def permute_def)
qed

subsection \<open>C7: missing columns stop the run before any row\<close>

text \<open>
  C7. For every header that lacks at least one of the names \<open>package\<close>,
  \<open>architecture\<close>, \<open>release\<close>, the run ends with exit status 1, an empty index,
  nothing on standard output and only the missing-column message on standard error, which
  is no malformed-row warning. No data row is read: the outcome is the same for every file
  with the same header line, whatever rows follow it.
\<close>

theorem C7_missing_column_exits_before_rows:
  assumes "length argv = 2" and "fs (argv ! 1) = Some content"
    and "''package'' \<notin> set (header_fields content) \<or> ''architecture'' \<notin> set (header_fields content)
         \<or> ''release'' \<notin> set (header_fields content)"
    and "fs' (argv ! 1) = Some content'" and "header_line content' = header_line content"
  shows "main argv fs =
           Some \<lparr>exit_code = 1, cout = [], cerr = missing_columns_message, hashmap = []\<rparr> \<and>
         main argv fs' = main argv fs \<and>
         (\<forall>n. cerr (the (main argv fs)) \<noteq> warning n)"
proof -
  have m: "main argv fs =
      Some \<lparr>exit_code = 1, cout = [], cerr = missing_columns_message, hashmap = []\<rparr>"
    using assms(1,2,3) by (rule main_missing)
  have "header_fields content' = header_fields content"
    using assms(5) by (simp add: header_fields_def)
  with assms(3) have "''package'' \<notin> set (header_fields content')
      \<or> ''architecture'' \<notin> set (header_fields content')
      \<or> ''release'' \<notin> set (header_fields content')"
    by simp
  with assms(1,4) have "main argv fs' =
      Some \<lparr>exit_code = 1, cout = [], cerr = missing_columns_message, hashmap = []\<rparr>"
    by (rule main_missing)
  moreover have "\<forall>n. missing_columns_message \<noteq> warning n"
    by (simp add: missing_columns_message_def warning_def)
  ultimately show ?thesis using m by simp
qed

theorem C7_witness:
  "main [''./csv_hashmap'', ''p.csv''] [''p.csv'' \<mapsto> headless_csv] =
     Some \<lparr>exit_code = 1, cout = [], cerr = missing_columns_message, hashmap = []\<rparr> \<and>
   main [''./csv_hashmap'', ''p.csv''] [''p.csv'' \<mapsto> ''package,release''] =
     main [''./csv_hashmap'', ''p.csv''] [''p.csv'' \<mapsto> headless_csv]"
proof -
  have hl: "header_line headless_csv = ''package,release''"
    "header_line ''package,release'' = ''package,release''"
    by (simp_all add: headless_csv_def header_line_def file_lines_def drop_last_empty_def)
  have hf: "header_fields headless_csv = [''package'', ''release'']"
    by (simp add: header_fields_def hl split_csv_row_eq drop_last_empty_def)
  show ?thesis
    using C7_missing_column_exits_before_rows
      [of "[''./csv_hashmap'', ''p.csv'']" "[''p.csv'' \<mapsto> headless_csv]" headless_csv
          "[''p.csv'' \<mapsto> ''package,release'']" "''package,release''"]
    by (simp add: hl hf)
qed

subsection \<open>C8: Query Service\<close>

text \<open>
  C8, as amended. For every index and queried key the lookup returns the index as it was.
  If the key is present, the output is the found line: the prefix and then every field
  of the stored row followed by the separator \<open> | \<close>, so for a row that is not empty
  the fields separated by \<open> | \<close> and one more separator after the last field, before
  the newline. If the key is absent, the output is the not-found line with the queried
  key.
\<close>

theorem C8_query_service:
  "fst (query_service m k out) = m \<and>
   (\<forall>row. map_of m k = Some row \<longrightarrow>
      snd (query_service m k out) =
        out @ magnifier @ '' Found: '' @ concat (map (\<lambda>col. col @ '' | '') row) @ [CHR 0x0A] \<and>
      (row \<noteq> [] \<longrightarrow>
         snd (query_service m k out) =
           out @ magnifier @ '' Found: '' @ join_with '' | '' row @ '' | '' @ [CHR 0x0A])) \<and>
   (map_of m k = None \<longrightarrow>
      snd (query_service m k out) = out @ cross_mark @ '' Not found: '' @ k @ [CHR 0x0A])"
proof -
  have "fst (query_service m k out) = m"
    by (simp add: query_service_def split: option.splits)
  moreover have "\<forall>row. map_of m k = Some row \<longrightarrow> row \<noteq> [] \<longrightarrow>
      concat (map (\<lambda>col. col @ '' | '') row) = join_with '' | '' row @ '' | ''"
    using concat_sep_join by blast
  ultimately show ?thesis
    by (simp add: query_output)
qed

theorem C8_witness:
  "query_service [(''openssl|amd64|22.04'', [''openssl'', ''amd64'', ''22.04''])]
       ''openssl|amd64|22.04'' [] =
     ([(''openssl|amd64|22.04'', [''openssl'', ''amd64'', ''22.04''])],
      magnifier @ '' Found: openssl | amd64 | 22.04 | '' @ [CHR 0x0A]) \<and>
   query_service [(''openssl|amd64|22.04'', [''openssl'', ''amd64'', ''22.04''])] ''zlib|arm64|20.04'' [] =
     ([(''openssl|amd64|22.04'', [''openssl'', ''amd64'', ''22.04''])],
      cross_mark @ '' Not found: zlib|arm64|20.04'' @ [CHR 0x0A])"
  using C8_query_service [of "[(''openssl|amd64|22.04'', [''openssl'', ''amd64'', ''22.04''])]"
            "''openssl|amd64|22.04''" "[]"]
        C8_query_service [of "[(''openssl|amd64|22.04'', [''openssl'', ''amd64'', ''22.04''])]"
            "''zlib|arm64|20.04''" "[]"]
  by (simp add: prod_eq_iff)

text \<open>
  C8 as stated fails: for the stored row \<open>a, b\<close> the found line ends in an extra
  separator after \<open>b\<close>, so it is not the line that lists the fields separated by
  \<open> | \<close> with no extra separators.
\<close>

theorem C8_counterexample:
  "map_of [(''k'', [''a'', ''b''])] ''k'' = Some [''a'', ''b''] \<and>
   snd (query_service [(''k'', [''a'', ''b''])] ''k'' []) = magnifier @ '' Found: a | b | '' @ [CHR 0x0A] \<and>
   spec_found_line [''a'', ''b''] = magnifier @ '' Found: a | b'' @ [CHR 0x0A] \<and>
   snd (query_service [(''k'', [''a'', ''b''])] ''k'' []) \<noteq> spec_found_line [''a'', ''b'']"
  by (simp add: query_service_def spec_found_line_def magnifier_def)

subsection \<open>C9: a required name that occurs more than once\<close>

text \<open>
  C9. Each required name that occurs in the header row, once or several times, is resolved
  to the position of its last occurrence. When the header is valid, these positions are
  the ones used to build the key of every well-formed data row, and every entry of the
  index has the key made of the fields of its row at these positions.
\<close>

theorem C9_last_occurrence_used:
  assumes "length argv = 2" and "fs (argv ! 1) = Some content"
    and "header_loop (header_fields content) 0 (npos, npos, npos) = (p, a, r)"
  shows "(''package'' \<in> set (header_fields content) \<longrightarrow>
            last_occurrence (header_fields content) ''package'' p) \<and>
         (''architecture'' \<in> set (header_fields content) \<longrightarrow>
            last_occurrence (header_fields content) ''architecture'' a) \<and>
         (''release'' \<in> set (header_fields content) \<longrightarrow>
            last_occurrence (header_fields content) ''release'' r) \<and>
         (valid_header (header_fields content) \<longrightarrow>
            (\<exists>out. main argv fs = Some out \<and>
               hashmap out = foldl (insert_row p a r) []
                               (well_formed_rows (header_fields content) (data_rows content)) \<and>
               (\<forall>row \<in> set (well_formed_rows (header_fields content) (data_rows content)).
                  make_key row p a r = Some (row ! p @ ''|'' @ row ! a @ ''|'' @ row ! r)) \<and>
               (\<forall>entry \<in> set (hashmap out).
                  fst entry = snd entry ! p @ ''|'' @ snd entry ! a @ ''|'' @ snd entry ! r)))"
proof -
  let ?hs = "header_fields content" and ?rows = "data_rows content"
  have eqs: "p = find_last ''package'' ?hs 0 npos" "a = find_last ''architecture'' ?hs 0 npos"
    "r = find_last ''release'' ?hs 0 npos"
    using assms(3) by (simp_all add: header_loop_eq)
  have last: "''package'' \<in> set ?hs \<longrightarrow> last_occurrence ?hs ''package'' p"
    "''architecture'' \<in> set ?hs \<longrightarrow> last_occurrence ?hs ''architecture'' a"
    "''release'' \<in> set ?hs \<longrightarrow> last_occurrence ?hs ''release'' r"
    by (simp_all add: eqs find_last_present)
  have run: "\<exists>out. main argv fs = Some out \<and>
               hashmap out = foldl (insert_row p a r) [] (well_formed_rows ?hs ?rows) \<and>
               (\<forall>row \<in> set (well_formed_rows ?hs ?rows).
                  make_key row p a r = Some (row ! p @ ''|'' @ row ! a @ ''|'' @ row ! r)) \<and>
               (\<forall>entry \<in> set (hashmap out).
                  fst entry = snd entry ! p @ ''|'' @ snd entry ! a @ ''|'' @ snd entry ! r)"
    if v: "valid_header ?hs"
  proof -
    note pos = valid_header_positions [OF v assms(3)]
    have keys: "\<forall>row \<in> set (well_formed_rows ?hs ?rows).
        make_key row p a r = Some (row ! p @ ''|'' @ row ! a @ ''|'' @ row ! r)"
      using pos(7,8,9) by (simp add: well_formed_rows_def make_key_def)
    have entries: "\<forall>entry \<in> set (foldl (insert_row p a r) m ws).
        fst entry = composite_key p a r (snd entry)"
      if "\<forall>entry \<in> set m. fst entry = composite_key p a r (snd entry)" for m ws
      using that
    proof (induction ws arbitrary: m)
      case Nil
      then show ?case by simp
    next
      case (Cons w ws)
      have "\<forall>entry \<in> set (insert_row p a r m w). fst entry = composite_key p a r (snd entry)"
        using Cons.prems set_update_subset [of "composite_key p a r w" w m]
        by (auto simp: insert_row_def)
      then show ?case using Cons.IH by simp
    qed
    show ?thesis
      using keys entries [of "[]" "well_formed_rows ?hs ?rows"]
      by (simp add: main_valid [of argv fs content p a r, OF assms(1,2) v assms(3)]
            composite_key_def)
  qed
  show ?thesis using last run by blast
qed

theorem C9_witness:
  "last_occurrence [''package'', ''package'', ''architecture'', ''release''] ''package'' 1 \<and>
   (\<exists>out. main sample_argv [''packages.csv'' \<mapsto> duplicate_csv] = Some out \<and>
          hashmap out = [(''new|amd64|22.04'', [''old'', ''new'', ''amd64'', ''22.04''])])"
  using C9_last_occurrence_used
      [of sample_argv "[''packages.csv'' \<mapsto> duplicate_csv]" duplicate_csv 1 2 3,
       OF _ _ duplicate_positions]
  by (auto simp: sample_argv_def duplicate_header_fields duplicate_data_rows valid_header_def
        npos_def well_formed_rows_def insert_row_def composite_key_def)

subsection \<open>C10: empty file, empty first line\<close>

text \<open>
  C10. When the input file is empty or its first line is empty, the header row has no
  field, and the run ends with the missing-column message on standard error and exit
  status 1; nothing is written to standard output and no row is indexed. The result is a
  value of the program, not an out-of-range read.
\<close>

theorem C10_empty_header_is_missing_columns:
  assumes "length argv = 2" and "fs (argv ! 1) = Some content"
    and "content = [] \<or> (\<exists>rest. content = CHR 0x0A # rest)"
  shows "header_line content = [] \<and> header_fields content = [] \<and>
         main argv fs =
           Some \<lparr>exit_code = 1, cout = [], cerr = missing_columns_message, hashmap = []\<rparr>"
proof -
  have "header_line content = []"
    using assms(3) by (auto simp: header_line_eq)
  moreover have hf: "header_fields content = []"
    using assms(3) by (rule header_fields_empty)
  moreover have "main argv fs =
      Some \<lparr>exit_code = 1, cout = [], cerr = missing_columns_message, hashmap = []\<rparr>"
    using assms(1,2) by (rule main_missing) (simp add: hf)
  ultimately show ?thesis by simp
qed

theorem C10_witness:
  "main [''csv_hashmap'', ''empty.csv''] [''empty.csv'' \<mapsto> ''''] =
     Some \<lparr>exit_code = 1, cout = [], cerr = missing_columns_message, hashmap = []\<rparr> \<and>
   main [''csv_hashmap'', ''blank.csv'']
        [''blank.csv'' \<mapsto> CHR 0x0A # ''package,architecture,release''] =
     Some \<lparr>exit_code = 1, cout = [], cerr = missing_columns_message, hashmap = []\<rparr>"
  using C10_empty_header_is_missing_columns
          [of "[''csv_hashmap'', ''empty.csv'']" "[''empty.csv'' \<mapsto> '''']" "''''"]
        C10_empty_header_is_missing_columns
          [of "[''csv_hashmap'', ''blank.csv'']"
              "[''blank.csv'' \<mapsto> CHR 0x0A # ''package,architecture,release'']"
              "CHR 0x0A # ''package,architecture,release''"]
  by simp

end
